theory Spec2Isabelle
  imports Main
begin

section \<open>Python lists and their index errors\<close>

text \<open>
  The program is Python: integers are unbounded (\<open>int\<close>), and a list subscript
  \<open>xs[i]\<close> accepts every \<open>i\<close> with \<open>-len(xs) \<le> i < len(xs)\<close> (a negative index counts
  from the end) and raises \<open>IndexError\<close> otherwise. A result is \<open>None\<close> when the
  call does not return, \<open>Some (Inl e)\<close> when it raises \<open>e\<close> and \<open>Some (Inr v)\<close> when it
  returns \<open>v\<close>.
\<close>

datatype error = IndexError

definition py_index :: "'a list \<Rightarrow> int \<Rightarrow> error + nat" where
  "py_index xs i =
     (let n = int (length xs); j = (if i < 0 then i + n else i)
      in if 0 \<le> j \<and> j < n then Inr (nat j) else Inl IndexError)"

definition py_get :: "'a list \<Rightarrow> int \<Rightarrow> error + 'a" where
  "py_get xs i = (case py_index xs i of Inl e \<Rightarrow> Inl e | Inr j \<Rightarrow> Inr (xs ! j))"

definition py_set :: "'a list \<Rightarrow> int \<Rightarrow> 'a \<Rightarrow> error + 'a list" where
  "py_set xs i v = (case py_index xs i of Inl e \<Rightarrow> Inl e | Inr j \<Rightarrow> Inr (xs[j := v]))"

section \<open>class UnionFind\<close>

record UnionFind =
  parents :: "int list"
  ranks :: "int list"

definition UnionFind_init :: "int \<Rightarrow> UnionFind" where
  "UnionFind_init vertices_nb =
     \<lparr>parents = [0..vertices_nb - 1], ranks = replicate (nat vertices_nb) 1\<rparr>"

text \<open>
  First loop of \<open>find\<close>: \<open>while self.parents[parent] != parent: parent = self.parents[parent]\<close>.
\<close>

partial_function (option) find_root :: "int list \<Rightarrow> int \<Rightarrow> (error + int) option" where
  "find_root ps parent =
     (case py_get ps parent of
        Inl e \<Rightarrow> Some (Inl e)
      | Inr p \<Rightarrow> if p \<noteq> parent then find_root ps p else Some (Inr parent))"

text \<open>
  Second loop of \<open>find\<close>:
  \<open>while vertex != parent: vertex, self.parents[vertex] = self.parents[vertex], parent\<close>.
  Python evaluates the right-hand side first and then assigns the targets from left to
  right, so the subscript of the second target is the \<^emph>\<open>new\<close> value of \<open>vertex\<close>.
\<close>

partial_function (option) compress :: "int list \<Rightarrow> int \<Rightarrow> int \<Rightarrow> (error + int list) option" where
  "compress ps vertex parent =
     (if vertex \<noteq> parent then
        (case py_get ps vertex of
           Inl e \<Rightarrow> Some (Inl e)
         | Inr nxt \<Rightarrow>
             (case py_set ps nxt parent of
                Inl e \<Rightarrow> Some (Inl e)
              | Inr ps' \<Rightarrow> compress ps' nxt parent))
      else Some (Inr ps))"

declare find_root.simps [code]
declare compress.simps [code]

definition find_uf :: "UnionFind \<Rightarrow> int \<Rightarrow> (error + int \<times> UnionFind) option" where
  "find_uf uf vertex =
     (case find_root (parents uf) vertex of
        None \<Rightarrow> None
      | Some (Inl e) \<Rightarrow> Some (Inl e)
      | Some (Inr parent) \<Rightarrow>
          (case compress (parents uf) vertex parent of
             None \<Rightarrow> None
           | Some (Inl e) \<Rightarrow> Some (Inl e)
           | Some (Inr ps') \<Rightarrow> Some (Inr (parent, uf\<lparr>parents := ps'\<rparr>))))"

text \<open>
  \<open>union\<close> after its two \<open>find\<close> calls and the test \<open>parent1 == parent2\<close>: the three
  branches on the ranks of the two roots. The assignments are to \<open>self.parents[vertex2]\<close>
  and \<open>self.parents[vertex1]\<close>, as in the source.
\<close>

definition union_attach ::
  "UnionFind \<Rightarrow> int \<Rightarrow> int \<Rightarrow> int \<Rightarrow> int \<Rightarrow> error + UnionFind" where
  "union_attach uf vertex1 vertex2 parent1 parent2 =
     (case py_get (ranks uf) parent1 of
        Inl e \<Rightarrow> Inl e
      | Inr rank1 \<Rightarrow>
          (case py_get (ranks uf) parent2 of
             Inl e \<Rightarrow> Inl e
           | Inr rank2 \<Rightarrow>
               if rank1 > rank2 then
                 (case py_set (parents uf) vertex2 parent1 of
                    Inl e \<Rightarrow> Inl e
                  | Inr ps \<Rightarrow> Inr (uf\<lparr>parents := ps\<rparr>))
               else if rank1 < rank2 then
                 (case py_set (parents uf) vertex1 parent2 of
                    Inl e \<Rightarrow> Inl e
                  | Inr ps \<Rightarrow> Inr (uf\<lparr>parents := ps\<rparr>))
               else
                 (case py_set (parents uf) vertex2 parent1 of
                    Inl e \<Rightarrow> Inl e
                  | Inr ps \<Rightarrow>
                      (case py_set (ranks uf) parent1 (rank1 + 1) of
                         Inl e \<Rightarrow> Inl e
                       | Inr rs \<Rightarrow> Inr (uf\<lparr>parents := ps, ranks := rs\<rparr>)))))"

definition union_uf :: "UnionFind \<Rightarrow> int \<Rightarrow> int \<Rightarrow> (error + bool \<times> UnionFind) option" where
  "union_uf uf vertex1 vertex2 =
     (case find_uf uf vertex1 of
        None \<Rightarrow> None
      | Some (Inl e) \<Rightarrow> Some (Inl e)
      | Some (Inr (parent1, uf1)) \<Rightarrow>
          (case find_uf uf1 vertex2 of
             None \<Rightarrow> None
           | Some (Inl e) \<Rightarrow> Some (Inl e)
           | Some (Inr (parent2, uf2)) \<Rightarrow>
               if parent1 = parent2 then Some (Inr (False, uf2))
               else
                 (case union_attach uf2 vertex1 vertex2 parent1 parent2 of
                    Inl e \<Rightarrow> Some (Inl e)
                  | Inr uf3 \<Rightarrow> Some (Inr (True, uf3)))))"

section \<open>classes Edge, Graph and MinimumSpanningTree\<close>

datatype Edge = Edge (from_v: int) (to: int) (weight: int)

record Graph =
  vertices :: "int set"
  edges :: "Edge list"

definition Graph_init :: Graph where
  "Graph_init = \<lparr>vertices = {}, edges = []\<rparr>"

definition add_edge :: "Graph \<Rightarrow> Edge \<Rightarrow> Graph" where
  "add_edge graph edge =
     \<lparr>vertices = insert (to edge) (insert (from_v edge) (vertices graph)),
      edges = edges graph @ [edge]\<rparr>"

definition get_vertices_nb :: "Graph \<Rightarrow> int" where
  "get_vertices_nb graph = int (card (vertices graph))"

datatype MinimumSpanningTree = MinimumSpanningTree "Edge list" int

section \<open>kruskal\<close>

text \<open>
  The \<open>while\<close> loop of \<open>kruskal\<close>. \<open>sorted_edges[edges_idx]\<close> raises \<open>IndexError\<close> once
  \<open>edges_idx\<close> has reached the length of the list (the index starts at 0 and only grows,
  so it is never negative).
\<close>

function kruskal_loop ::
  "Graph \<Rightarrow> Edge list \<Rightarrow> Edge list \<Rightarrow> nat \<Rightarrow> int \<Rightarrow> UnionFind \<Rightarrow> (error + Edge list \<times> int) option"
where
  "kruskal_loop graph sorted_edges min_path_edges edges_idx total_weight u_find =
     (if int (length min_path_edges) < get_vertices_nb graph - 1 then
        (if edges_idx < length sorted_edges then
           (let edge = sorted_edges ! edges_idx in
            case find_uf u_find (from_v edge) of
              None \<Rightarrow> None
            | Some (Inl e) \<Rightarrow> Some (Inl e)
            | Some (Inr (parent_f, uf1)) \<Rightarrow>
                (case find_uf uf1 (to edge) of
                   None \<Rightarrow> None
                 | Some (Inl e) \<Rightarrow> Some (Inl e)
                 | Some (Inr (parent_t, uf2)) \<Rightarrow>
                     if parent_f \<noteq> parent_t then
                       (case union_uf uf2 (from_v edge) (to edge) of
                          None \<Rightarrow> None
                        | Some (Inl e) \<Rightarrow> Some (Inl e)
                        | Some (Inr (merged, uf3)) \<Rightarrow>
                            kruskal_loop graph sorted_edges (min_path_edges @ [edge])
                              (Suc edges_idx) (total_weight + weight edge) uf3)
                     else
                       kruskal_loop graph sorted_edges min_path_edges
                         (Suc edges_idx) total_weight uf2))
         else Some (Inl IndexError))
      else Some (Inr (min_path_edges, total_weight)))"
  by pat_completeness auto
termination
  by (relation "measure (\<lambda>(graph, sorted_edges, min_path_edges, edges_idx, total_weight, u_find).
        length sorted_edges - edges_idx)") auto

declare kruskal_loop.simps [simp del]

text \<open>
  \<open>sorted(graph.edges, key=lambda e: e.weight)\<close> is a stable sort by weight; so is
  \<^const>\<open>sort_key\<close>.
\<close>

definition kruskal :: "Graph \<Rightarrow> (error + MinimumSpanningTree) option" where
  "kruskal graph =
     (let nb_of_vertices = int (card (vertices graph));
          sorted_edges = sort_key weight (edges graph);
          u_find = UnionFind_init nb_of_vertices
      in case kruskal_loop graph sorted_edges [] 0 0 u_find of
           None \<Rightarrow> None
         | Some (Inl e) \<Rightarrow> Some (Inl e)
         | Some (Inr (min_path_edges, total_weight)) \<Rightarrow>
             Some (Inr (MinimumSpanningTree min_path_edges total_weight)))"

definition create_graph :: Graph where
  "create_graph = foldl add_edge Graph_init
     [Edge 0 1 4, Edge 0 2 4, Edge 1 2 2, Edge 1 0 4, Edge 2 0 4,
      Edge 2 1 2, Edge 2 3 3, Edge 2 5 2, Edge 2 4 4, Edge 3 2 3,
      Edge 3 4 3, Edge 4 2 4, Edge 4 3 3, Edge 5 2 2, Edge 5 4 3]"

section \<open>Inputs and observations used by the theorems\<close>

text \<open>
  Five vertices; the edge \<open>(1, 3)\<close> joins two trees through vertices that are both
  children of their roots.
\<close>

definition bug_graph :: Graph where
  "bug_graph = foldl add_edge Graph_init
     [Edge 0 1 1, Edge 2 3 1, Edge 1 3 1, Edge 0 2 2, Edge 3 4 3]"

text \<open>Four vertices in two components.\<close>

definition two_pairs_graph :: Graph where
  "two_pairs_graph = foldl add_edge Graph_init [Edge 0 1 1, Edge 2 3 1]"

text \<open>The number of roots of a DSU: the elements \<open>x\<close> with \<open>parents[x] == x\<close>.\<close>

definition count_roots :: "UnionFind \<Rightarrow> nat" where
  "count_roots uf =
     length (filter (\<lambda>x. py_get (parents uf) x = Inr x) [0..int (length (parents uf)) - 1])"

text \<open>
  Following a list of edges from a vertex, each edge in either direction: the vertex
  where the walk ends, or \<open>None\<close> when an edge does not touch the current vertex.
\<close>

fun walk_end :: "int \<Rightarrow> Edge list \<Rightarrow> int option" where
  "walk_end u [] = Some u"
| "walk_end u (e # es) =
     (if from_v e = u then walk_end (to e) es
      else if to e = u then walk_end (from_v e) es
      else None)"

text \<open>Two vertices, a self-loop at vertex 0 and one edge between them.\<close>

definition self_loop_graph :: Graph where
  "self_loop_graph = foldl add_edge Graph_init [Edge 0 0 1, Edge 0 1 2]"

section \<open>Auxiliary notions for the proofs\<close>

text \<open>
  The indices a Python list of length \<open>n\<close> accepts, and the position each of them
  denotes.
\<close>

definition slot :: "nat \<Rightarrow> int \<Rightarrow> nat" where
  "slot n i = nat (if i < 0 then i + int n else i)"

definition in_range :: "nat \<Rightarrow> int \<Rightarrow> bool" where
  "in_range n i = (- int n \<le> i \<and> i < int n)"

text \<open>
  What the second loop of \<open>find\<close> leaves behind when the first loop has found the root
  \<open>r\<close> of \<open>v\<close>: the loop body runs at most twice, and the only entry it changes is the
  one of the parent of \<open>v\<close>.
\<close>

definition compressed :: "int list \<Rightarrow> int \<Rightarrow> int \<Rightarrow> int list" where
  "compressed ps v r =
     (if v = r then ps else ps[slot (length ps) (ps ! slot (length ps) v) := r])"

text \<open>
  The invariant of the DSU that makes \<open>find\<close> terminate: both lists have the same
  length, every parent is an index in \<open>[0, n)\<close>, and the rank grows strictly from an
  element to its parent. A fresh DSU satisfies it, and \<open>find\<close> and \<open>union\<close> keep it.
\<close>

definition uf_inv :: "UnionFind \<Rightarrow> bool" where
  "uf_inv uf =
     (length (ranks uf) = length (parents uf) \<and>
      (\<forall>i < length (parents uf).
         0 \<le> parents uf ! i \<and> parents uf ! i < int (length (parents uf)) \<and>
         (parents uf ! i \<noteq> int i \<longrightarrow> ranks uf ! i < ranks uf ! nat (parents uf ! i))))"

section \<open>Facts about list indexing and \<open>find\<close>\<close>

lemma py_index_in: "in_range (length xs) i \<Longrightarrow> py_index xs i = Inr (slot (length xs) i)"
  by (auto simp: py_index_def slot_def in_range_def Let_def)

lemma py_index_out: "\<not> in_range (length xs) i \<Longrightarrow> py_index xs i = Inl IndexError"
  by (auto simp: py_index_def in_range_def Let_def)

lemma slot_less: "in_range n i \<Longrightarrow> slot n i < n"
  by (auto simp: slot_def in_range_def)

lemma slot_nonneg: "0 \<le> i \<Longrightarrow> slot n i = nat i"
  by (simp add: slot_def)

lemma py_get_in: "in_range (length xs) i \<Longrightarrow> py_get xs i = Inr (xs ! slot (length xs) i)"
  by (simp add: py_get_def py_index_in)

lemma py_get_out: "\<not> in_range (length xs) i \<Longrightarrow> py_get xs i = Inl IndexError"
  by (simp add: py_get_def py_index_out)

lemma py_set_in: "in_range (length xs) i \<Longrightarrow> py_set xs i v = Inr (xs[slot (length xs) i := v])"
  by (simp add: py_set_def py_index_in)

lemma py_set_out: "\<not> in_range (length xs) i \<Longrightarrow> py_set xs i v = Inl IndexError"
  by (simp add: py_set_def py_index_out)

lemma py_get_Inr_iff:
  "py_get xs i = Inr v \<longleftrightarrow> in_range (length xs) i \<and> v = xs ! slot (length xs) i"
  by (cases "in_range (length xs) i") (auto simp: py_get_in py_get_out)

lemma find_root_root_aux:
  "find_root ps v = Some y \<Longrightarrow> (\<forall>r. y = Inr r \<longrightarrow> py_get ps r = Inr r)"
proof (induction rule: find_root.raw_induct[rotated 1, consumes 1])
  case (1 f ps v res)
  then show ?case
    by (auto split: sum.splits if_splits)
qed

lemma find_root_root: "find_root ps v = Some (Inr r) \<Longrightarrow> py_get ps r = Inr r"
  using find_root_root_aux by blast

lemma find_root_out: "\<not> in_range (length ps) v \<Longrightarrow> find_root ps v = Some (Inl IndexError)"
  by (subst find_root.simps) (simp add: py_get_out)

lemma find_root_in:
  "in_range (length ps) v \<Longrightarrow>
     find_root ps v =
       (if ps ! slot (length ps) v \<noteq> v then find_root ps (ps ! slot (length ps) v)
        else Some (Inr v))"
  by (subst find_root.simps) (simp add: py_get_in)

lemma find_root_Inr_range: "find_root ps v = Some (Inr r) \<Longrightarrow> in_range (length ps) v"
  using find_root_out [of ps v] by (cases "in_range (length ps) v") auto

lemma compress_after_find:
  assumes "find_root ps v = Some (Inr r)"
  shows "compress ps v r =
           Some (Inr (if v = r then ps
                      else ps[slot (length ps) (ps ! slot (length ps) v) := r]))"
proof (cases "v = r")
  case True
  then show ?thesis by (subst compress.simps) simp
next
  case False
  define n where "n = length ps"
  define p where "p = ps ! slot n v"
  have v: "in_range n v" using assms find_root_Inr_range n_def by blast
  have pv: "p \<noteq> v" and fp: "find_root ps p = Some (Inr r)"
    using assms False find_root_in [of ps v] v by (auto simp: n_def p_def split: if_splits)
  have p: "in_range n p" using fp find_root_Inr_range n_def by blast
  have rr: "in_range n r" "ps ! slot n r = r"
    using find_root_root [OF assms] by (auto simp: py_get_Inr_iff n_def)
  define ps1 where "ps1 = ps[slot n p := r]"
  have len1: "length ps1 = n" by (simp add: ps1_def n_def)
  have ps1r: "ps1 ! slot n r = r"
    using rr slot_less [OF rr(1)] by (cases "slot n p = slot n r") (simp_all add: ps1_def n_def)
  have ps1p: "ps1 ! slot n p = r"
    using slot_less [OF p] by (simp add: ps1_def n_def)
  have c1: "compress ps1 p r = Some (Inr ps1)"
  proof (cases "p = r")
    case True
    then show ?thesis by (subst compress.simps) simp
  next
    case False
    have "compress ps1 r r = Some (Inr ps1)" by (subst compress.simps) simp
    moreover have "ps1[slot n r := r] = ps1"
      using ps1r slot_less [OF rr(1)] len1 by (simp add: list_update_same_conv)
    ultimately show ?thesis
      using False p rr ps1p len1
      by (subst compress.simps) (simp add: py_get_in py_set_in)
  qed
  have "compress ps v r = compress ps1 p r"
    using False v p
    by (subst compress.simps) (simp add: py_get_in py_set_in n_def [symmetric] p_def [symmetric] ps1_def)
  then show ?thesis using c1 False by (simp add: ps1_def p_def n_def)
qed

lemma find_root_after_compress:
  assumes "find_root ps v = Some (Inr r)" "v \<noteq> r"
  shows "find_root (ps[slot (length ps) (ps ! slot (length ps) v) := r]) v = Some (Inr r)"
proof -
  define n where "n = length ps"
  define p where "p = ps ! slot n v"
  have v: "in_range n v" using assms find_root_Inr_range n_def by blast
  have pv: "p \<noteq> v" and fp: "find_root ps p = Some (Inr r)"
    using assms find_root_in [of ps v] v by (auto simp: n_def p_def split: if_splits)
  have p: "in_range n p" using fp find_root_Inr_range n_def by blast
  have rr: "in_range n r" "ps ! slot n r = r"
    using find_root_root [OF assms(1)] by (auto simp: py_get_Inr_iff n_def)
  define ps1 where "ps1 = ps[slot n p := r]"
  have len1: "length ps1 = n" by (simp add: ps1_def n_def)
  have ps1r: "ps1 ! slot n r = r"
    using rr slot_less [OF rr(1)] by (cases "slot n p = slot n r") (simp_all add: ps1_def n_def)
  have ps1p: "ps1 ! slot n p = r"
    using slot_less [OF p] by (simp add: ps1_def n_def)
  have fr: "find_root ps1 r = Some (Inr r)"
    using rr(1) ps1r len1 by (subst find_root_in) simp_all
  have fp1: "find_root ps1 p = Some (Inr r)"
    using p ps1p len1 fr by (subst find_root_in) auto
  have "find_root ps1 v = Some (Inr r)"
  proof (cases "slot n v = slot n p")
    case True
    then have "ps1 ! slot n v = r" using ps1p by simp
    then show ?thesis using v len1 fr assms(2) by (subst find_root_in) auto
  next
    case False
    then have "ps1 ! slot n v = p" by (simp add: ps1_def p_def)
    then show ?thesis using v len1 fp1 pv by (subst find_root_in) auto
  qed
  then show ?thesis by (simp add: ps1_def p_def n_def)
qed

lemma length_compressed [simp]: "length (compressed ps v r) = length ps"
  by (simp add: compressed_def)

lemma find_uf_Inr_iff:
  "find_uf uf v = Some (Inr (r, uf')) \<longleftrightarrow>
     find_root (parents uf) v = Some (Inr r) \<and> uf' = uf\<lparr>parents := compressed (parents uf) v r\<rparr>"
proof (cases "find_root (parents uf) v")
  case None
  then show ?thesis by (simp add: find_uf_def)
next
  case (Some a)
  show ?thesis
  proof (cases a)
    case (Inl e)
    then show ?thesis using Some by (simp add: find_uf_def)
  next
    case (Inr r')
    then have "find_root (parents uf) v = Some (Inr r')" using Some by simp
    from compress_after_find [OF this] this show ?thesis
      by (auto simp: find_uf_def compressed_def)
  qed
qed

lemma find_uf_twice:
  assumes "find_uf uf v = Some (Inr (r, uf'))"
  shows "\<exists>uf''. find_uf uf' v = Some (Inr (r, uf''))"
proof -
  from assms have fr: "find_root (parents uf) v = Some (Inr r)"
    and uf': "uf' = uf\<lparr>parents := compressed (parents uf) v r\<rparr>"
    by (simp_all add: find_uf_Inr_iff)
  have "find_root (parents uf') v = Some (Inr r)"
    using fr find_root_after_compress [OF fr] by (cases "v = r") (simp_all add: uf' compressed_def)
  then show ?thesis by (simp add: find_uf_Inr_iff)
qed


lemma find_uf_out: "\<not> in_range (length (parents uf)) v \<Longrightarrow> find_uf uf v = Some (Inl IndexError)"
  by (simp add: find_uf_def find_root_out)

lemma find_uf_length:
  "find_uf uf v = Some (Inr (r, uf')) \<Longrightarrow> length (parents uf') = length (parents uf)"
  by (simp add: find_uf_Inr_iff)

section \<open>Facts about the loop of \<open>kruskal\<close>\<close>

lemma kruskal_loop_no_self_loop:
  "kruskal_loop g se acc idx tw uf = Some (Inr (es, w)) \<Longrightarrow>
   (\<forall>e\<in>set acc. from_v e \<noteq> to e) \<Longrightarrow> tw = sum_list (map weight acc) \<Longrightarrow>
   (\<forall>e\<in>set es. from_v e \<noteq> to e) \<and> w = sum_list (map weight es)"
proof (induction g se acc idx tw uf rule: kruskal_loop.induct)
  case (1 g se acc idx tw uf)
  show ?case
  proof (cases "int (length acc) < get_vertices_nb g - 1")
    case False
    with "1.prems" show ?thesis by (subst (asm) kruskal_loop.simps) auto
  next
    case c1: True
    show ?thesis
    proof (cases "idx < length se")
      case False
      with c1 "1.prems" show ?thesis by (subst (asm) kruskal_loop.simps) simp
    next
      case c2: True
      define edge where "edge = se ! idx"
      from "1.prems"(1) c1 c2 obtain pf uf1 pt uf2 where
        f1: "find_uf uf (from_v edge) = Some (Inr (pf, uf1))" and
        f2: "find_uf uf1 (to edge) = Some (Inr (pt, uf2))"
        by (subst (asm) kruskal_loop.simps)
           (auto simp: edge_def Let_def split: option.splits sum.splits prod.splits)
      show ?thesis
      proof (cases "pf = pt")
        case True
        with "1.prems" c1 c2 f1 f2 have
          "kruskal_loop g se acc (Suc idx) tw uf2 = Some (Inr (es, w))"
          by (subst (asm) kruskal_loop.simps) (simp add: edge_def [symmetric])
        with "1.IH"(2) [OF c1 c2 edge_def f1 refl refl f2 refl refl] True "1.prems"
        show ?thesis by simp
      next
        case False
        have ne: "from_v edge \<noteq> to edge"
          using find_uf_twice [OF f1] f2 False by auto
        from "1.prems"(1) c1 c2 f1 f2 False obtain m uf3 where
          u: "union_uf uf2 (from_v edge) (to edge) = Some (Inr (m, uf3))" and
          k: "kruskal_loop g se (acc @ [edge]) (Suc idx) (tw + weight edge) uf3 = Some (Inr (es, w))"
          by (subst (asm) kruskal_loop.simps)
             (auto simp: edge_def [symmetric] split: option.splits sum.splits prod.splits)
        from "1.IH"(1) [OF c1 c2 edge_def f1 refl refl f2 refl refl _ u refl refl k] False ne "1.prems"
        show ?thesis by simp
      qed
    qed
  qed
qed

section \<open>The rank invariant: \<open>find\<close> and \<open>union\<close> return or raise\<close>

lemma in_range_nat: "i < n \<Longrightarrow> in_range n (int i)"
  by (simp add: in_range_def)

lemma slot_int [simp]: "slot n (int i) = i"
  by (simp add: slot_def)

lemma uf_inv_parent:
  assumes "uf_inv uf" "i < length (parents uf)"
  shows "nat (parents uf ! i) < length (parents uf)"
    and "int (nat (parents uf ! i)) = parents uf ! i"
    and "parents uf ! i \<noteq> int i \<Longrightarrow> ranks uf ! i < ranks uf ! nat (parents uf ! i)"
  using assms by (auto simp: uf_inv_def)

lemma find_root_total_nat:
  assumes "uf_inv uf" and "i < length (parents uf)"
  shows "\<exists>r. find_root (parents uf) (int i) = Some (Inr (int r)) \<and> r < length (parents uf)
            \<and> parents uf ! r = int r \<and> (i = r \<or> ranks uf ! i < ranks uf ! r)"
  using assms(2)
proof (induction "nat (Max (set (ranks uf)) - ranks uf ! i)" arbitrary: i rule: less_induct)
  case less
  let ?ps = "parents uf" and ?rs = "ranks uf"
  have step: "find_root ?ps (int i) =
      (if ?ps ! i \<noteq> int i then find_root ?ps (?ps ! i) else Some (Inr (int i)))"
    using find_root_in [OF in_range_nat [OF less.prems]] by simp
  show ?case
  proof (cases "?ps ! i = int i")
    case True
    with step less.prems show ?thesis by auto
  next
    case False
    define p where "p = nat (?ps ! i)"
    have p: "p < length ?ps" "int p = ?ps ! i" "?rs ! i < ?rs ! p"
      using uf_inv_parent [OF assms(1) less.prems] False by (simp_all add: p_def)
    have "length ?rs = length ?ps" using assms(1) by (simp add: uf_inv_def)
    then have "?rs ! p \<in> set ?rs" using p(1) by simp
    then have "?rs ! p \<le> Max (set ?rs)" by simp
    with p(3) have "nat (Max (set ?rs) - ?rs ! p) < nat (Max (set ?rs) - ?rs ! i)" by simp
    from less.hyps [OF this p(1)] obtain r where
      r: "find_root ?ps (int p) = Some (Inr (int r))" "r < length ?ps" "?ps ! r = int r"
         "p = r \<or> ?rs ! p < ?rs ! r" by blast
    from step False p(2) r(1) have "find_root ?ps (int i) = Some (Inr (int r))" by simp
    with r p(3) show ?thesis by auto
  qed
qed

lemma find_root_total:
  assumes "uf_inv uf" and "in_range (length (parents uf)) v"
  shows "\<exists>r. find_root (parents uf) v = Some (Inr (int r)) \<and> r < length (parents uf)
            \<and> parents uf ! r = int r
            \<and> (slot (length (parents uf)) v = r
               \<or> ranks uf ! slot (length (parents uf)) v < ranks uf ! r)"
proof (cases "0 \<le> v")
  case True
  then obtain i where i: "v = int i" using nonneg_int_cases by blast
  with assms(2) have "i < length (parents uf)" by (simp add: in_range_def)
  from find_root_total_nat [OF assms(1) this] i show ?thesis by simp
next
  case False
  let ?ps = "parents uf" and ?rs = "ranks uf"
  define s where "s = slot (length ?ps) v"
  have s: "s < length ?ps" using slot_less [OF assms(2)] by (simp add: s_def)
  define p where "p = nat (?ps ! s)"
  have p: "p < length ?ps" "int p = ?ps ! s"
    using uf_inv_parent(1,2) [OF assms(1) s] by (simp_all add: p_def)
  have ne: "?ps ! s \<noteq> v" using p(2) False by linarith
  have step: "find_root ?ps v = find_root ?ps (int p)"
    using find_root_in [OF assms(2)] ne p(2) by (simp add: s_def)
  from find_root_total_nat [OF assms(1) p(1)] obtain r where
    r: "find_root ?ps (int p) = Some (Inr (int r))" "r < length ?ps" "?ps ! r = int r"
       "p = r \<or> ?rs ! p < ?rs ! r" by blast
  have "s = p \<or> ?rs ! s < ?rs ! p"
  proof (cases "?ps ! s = int s")
    case True
    then show ?thesis by (simp add: p_def)
  next
    case False
    from uf_inv_parent(3) [OF assms(1) s False] show ?thesis by (simp add: p_def)
  qed
  with r(4) have "s = r \<or> ?rs ! s < ?rs ! r" by auto
  with step r show ?thesis by (auto simp: s_def)
qed


lemma uf_inv_compressed:
  assumes "uf_inv uf" and "find_root (parents uf) v = Some (Inr r)"
  shows "uf_inv (uf\<lparr>parents := compressed (parents uf) v r\<rparr>)"
proof (cases "v = r")
  case True
  with assms(1) show ?thesis by (simp add: compressed_def uf_inv_def)
next
  case False
  let ?ps = "parents uf" and ?rs = "ranks uf"
  define n where "n = length ?ps"
  have v: "in_range n v" using find_root_Inr_range [OF assms(2)] by (simp add: n_def)
  define s where "s = slot n v"
  have s: "s < n" using slot_less [OF v] by (simp add: s_def)
  define p where "p = nat (?ps ! s)"
  have p: "p < n" "int p = ?ps ! s"
    using uf_inv_parent(1,2) [OF assms(1)] s by (simp_all add: p_def n_def)
  have "?ps ! s \<noteq> v" using assms(2) False find_root_in [of ?ps v] v
    by (auto simp: n_def s_def)
  then have fp: "find_root ?ps (int p) = Some (Inr r)"
    using assms(2) find_root_in [of ?ps v] v p(2) by (simp add: n_def s_def)
  from find_root_total_nat [OF assms(1), of p] p(1) fp obtain r' where
    r': "r = int r'" "r' < n" "p = r' \<or> ?rs ! p < ?rs ! r'"
    by (auto simp: n_def)
  have c: "compressed ?ps v r = ?ps[p := r]"
    using False p(2) [symmetric] by (simp add: compressed_def s_def n_def)
  show ?thesis unfolding c
    using assms(1) r' p by (auto simp: uf_inv_def nth_list_update n_def)
qed

lemma compressed_keeps_root:
  assumes "find_root ps v = Some (Inr r)" and "k < length ps" and "ps ! k = int k"
  shows "compressed ps v r ! k = int k"
proof (cases "v = r")
  case True
  with assms(3) show ?thesis by (simp add: compressed_def)
next
  case False
  define n where "n = length ps"
  have v: "in_range n v" using find_root_Inr_range [OF assms(1)] by (simp add: n_def)
  define p where "p = ps ! slot n v"
  have "p \<noteq> v" using assms(1) False find_root_in [of ps v] v by (auto simp: n_def p_def)
  then have fp: "find_root ps p = Some (Inr r)"
    using assms(1) find_root_in [of ps v] v by (simp add: n_def p_def)
  have pr: "in_range n p" using find_root_Inr_range [OF fp] by (simp add: n_def)
  have c: "compressed ps v r = ps[slot n p := r]"
    using False by (simp add: compressed_def p_def n_def)
  show ?thesis
  proof (cases "slot n p = k")
    case True
    have k: "find_root ps (int k) = Some (Inr (int k))"
      using find_root_in [OF in_range_nat [OF assms(2)]] assms(3) by simp
    have "find_root ps p = Some (Inr (int k))"
    proof (cases "p = int k")
      case True
      with k show ?thesis by simp
    next
      case False
      with find_root_in [of ps p] pr True assms(3) k show ?thesis by (simp add: n_def)
    qed
    with fp have "r = int k" by simp
    with c True assms(2) show ?thesis by (simp add: n_def)
  next
    case False
    with c assms(3) show ?thesis by simp
  qed
qed

lemma find_uf_total:
  assumes "uf_inv uf" and "in_range (length (parents uf)) v"
  shows "\<exists>r uf'. find_uf uf v = Some (Inr (int r, uf')) \<and> uf_inv uf'
           \<and> ranks uf' = ranks uf \<and> length (parents uf') = length (parents uf)
           \<and> r < length (parents uf) \<and> parents uf' ! r = int r
           \<and> ranks uf ! slot (length (parents uf)) v \<le> ranks uf ! r
           \<and> (\<forall>k < length (parents uf). parents uf ! k = int k \<longrightarrow> parents uf' ! k = int k)"
proof -
  from find_root_total [OF assms] obtain r where
    r: "find_root (parents uf) v = Some (Inr (int r))" "r < length (parents uf)"
       "parents uf ! r = int r"
       "slot (length (parents uf)) v = r
        \<or> ranks uf ! slot (length (parents uf)) v < ranks uf ! r" by blast
  define uf' where "uf' = uf\<lparr>parents := compressed (parents uf) v (int r)\<rparr>"
  have "find_uf uf v = Some (Inr (int r, uf'))"
    using r(1) by (simp add: find_uf_Inr_iff uf'_def)
  moreover have "uf_inv uf'" unfolding uf'_def by (rule uf_inv_compressed [OF assms(1) r(1)])
  moreover have "\<forall>k < length (parents uf). parents uf ! k = int k \<longrightarrow> parents uf' ! k = int k"
    using compressed_keeps_root [OF r(1)] by (simp add: uf'_def)
  moreover have "ranks uf ! slot (length (parents uf)) v \<le> ranks uf ! r"
    using r(4) by auto
  ultimately show ?thesis using r(2,3) by (auto simp: uf'_def)
qed


lemma union_attach_inv:
  assumes inv: "uf_inv uf"
    and v1: "in_range (length (parents uf)) v1" and v2: "in_range (length (parents uf)) v2"
    and r1: "r1 < length (parents uf)" and r2: "r2 < length (parents uf)"
    and root1: "parents uf ! r1 = int r1"
    and le1: "ranks uf ! slot (length (parents uf)) v1 \<le> ranks uf ! r1"
    and le2: "ranks uf ! slot (length (parents uf)) v2 \<le> ranks uf ! r2"
  shows "\<exists>uf'. union_attach uf v1 v2 (int r1) (int r2) = Inr uf' \<and> uf_inv uf'"
proof -
  let ?ps = "parents uf" and ?rs = "ranks uf"
  define n where "n = length ?ps"
  have len: "length ?rs = n" using inv by (simp add: uf_inv_def n_def)
  define s1 where "s1 = slot n v1"
  define s2 where "s2 = slot n v2"
  have s1: "s1 < n" using slot_less [OF v1] by (simp add: s1_def n_def)
  have s2: "s2 < n" using slot_less [OF v2] by (simp add: s2_def n_def)
  have g1: "py_get ?rs (int r1) = Inr (?rs ! r1)"
    using py_get_in [of ?rs "int r1"] r1 len by (simp add: in_range_def n_def)
  have g2: "py_get ?rs (int r2) = Inr (?rs ! r2)"
    using py_get_in [of ?rs "int r2"] r2 len by (simp add: in_range_def n_def)
  have p1: "py_set ?ps v1 x = Inr (?ps[s1 := x])" for x
    using py_set_in [OF v1] by (simp add: s1_def n_def)
  have p2: "py_set ?ps v2 x = Inr (?ps[s2 := x])" for x
    using py_set_in [OF v2] by (simp add: s2_def n_def)
  have pr: "py_set ?rs (int r1) x = Inr (?rs[r1 := x])" for x
    using py_set_in [of ?rs "int r1" x] r1 len by (simp add: in_range_def n_def)
  have l1: "?rs ! s1 \<le> ?rs ! r1" using le1 by (simp add: s1_def n_def)
  have l2: "?rs ! s2 \<le> ?rs ! r2" using le2 by (simp add: s2_def n_def)
  consider (gt) "?rs ! r1 > ?rs ! r2" | (lt) "?rs ! r1 < ?rs ! r2" | (eq) "?rs ! r1 = ?rs ! r2"
    by linarith
  then show ?thesis
  proof cases
    case gt
    then have "union_attach uf v1 v2 (int r1) (int r2) = Inr (uf\<lparr>parents := ?ps[s2 := int r1]\<rparr>)"
      by (simp add: union_attach_def g1 g2 p2)
    moreover have "uf_inv (uf\<lparr>parents := ?ps[s2 := int r1]\<rparr>)"
      using inv r1 s2 l2 gt by (auto simp: uf_inv_def nth_list_update n_def)
    ultimately show ?thesis by blast
  next
    case lt
    then have "union_attach uf v1 v2 (int r1) (int r2) = Inr (uf\<lparr>parents := ?ps[s1 := int r2]\<rparr>)"
      by (simp add: union_attach_def g1 g2 p1)
    moreover have "uf_inv (uf\<lparr>parents := ?ps[s1 := int r2]\<rparr>)"
      using inv r2 s1 l1 lt by (auto simp: uf_inv_def nth_list_update n_def)
    ultimately show ?thesis by blast
  next
    case eq
    then have "union_attach uf v1 v2 (int r1) (int r2) =
        Inr (uf\<lparr>parents := ?ps[s2 := int r1], ranks := ?rs[r1 := ?rs ! r1 + 1]\<rparr>)"
      by (simp add: union_attach_def g1 g2 p2 pr)
    moreover have "uf_inv (uf\<lparr>parents := ?ps[s2 := int r1], ranks := ?rs[r1 := ?rs ! r1 + 1]\<rparr>)"
      unfolding uf_inv_def
    proof (intro conjI allI impI)
      show "length (ranks (uf\<lparr>parents := ?ps[s2 := int r1], ranks := ?rs[r1 := ?rs ! r1 + 1]\<rparr>)) =
            length (parents (uf\<lparr>parents := ?ps[s2 := int r1], ranks := ?rs[r1 := ?rs ! r1 + 1]\<rparr>))"
        using len by (simp add: n_def)
    next
      fix i
      assume "i < length (parents (uf\<lparr>parents := ?ps[s2 := int r1], ranks := ?rs[r1 := ?rs ! r1 + 1]\<rparr>))"
      then have i: "i < n" by (simp add: n_def)
      have old: "0 \<le> ?ps ! i" "?ps ! i < int n" "nat (?ps ! i) < n"
        using inv i by (auto simp: uf_inv_def n_def)
      show "0 \<le> parents (uf\<lparr>parents := ?ps[s2 := int r1], ranks := ?rs[r1 := ?rs ! r1 + 1]\<rparr>) ! i"
        using old i s2 by (simp add: nth_list_update n_def)
      show "parents (uf\<lparr>parents := ?ps[s2 := int r1], ranks := ?rs[r1 := ?rs ! r1 + 1]\<rparr>) ! i
            < int (length (parents (uf\<lparr>parents := ?ps[s2 := int r1], ranks := ?rs[r1 := ?rs ! r1 + 1]\<rparr>)))"
        using old i r1 s2 by (simp add: nth_list_update n_def)
      assume ne: "parents (uf\<lparr>parents := ?ps[s2 := int r1], ranks := ?rs[r1 := ?rs ! r1 + 1]\<rparr>) ! i \<noteq> int i"
      show "ranks (uf\<lparr>parents := ?ps[s2 := int r1], ranks := ?rs[r1 := ?rs ! r1 + 1]\<rparr>) ! i
            < ranks (uf\<lparr>parents := ?ps[s2 := int r1], ranks := ?rs[r1 := ?rs ! r1 + 1]\<rparr>)
                ! nat (parents (uf\<lparr>parents := ?ps[s2 := int r1], ranks := ?rs[r1 := ?rs ! r1 + 1]\<rparr>) ! i)"
      proof (cases "i = s2")
        case True
        with ne s2 have "i \<noteq> r1" by (simp add: n_def)
        with True s2 r1 l2 eq len show ?thesis by (simp add: n_def)
      next
        case False
        with ne have ne': "?ps ! i \<noteq> int i" by simp
        with root1 have ir: "i \<noteq> r1" by auto
        from inv i ne' have lt: "?rs ! i < ?rs ! nat (?ps ! i)" by (auto simp: uf_inv_def n_def)
        show ?thesis
          using False ir lt old(3) r1 s2 len by (simp add: nth_list_update n_def)
      qed
    qed
    ultimately show ?thesis by blast
  qed
qed


lemma find_uf_cases:
  assumes "uf_inv uf"
  shows "find_uf uf v = Some (Inl IndexError)
         \<or> (\<exists>r uf'. find_uf uf v = Some (Inr (r, uf')) \<and> uf_inv uf')"
proof (cases "in_range (length (parents uf)) v")
  case True
  from find_uf_total [OF assms True] show ?thesis by blast
next
  case False
  then show ?thesis by (simp add: find_uf_out)
qed

lemma union_uf_cases:
  assumes "uf_inv uf"
  shows "union_uf uf a b = Some (Inl IndexError)
         \<or> (\<exists>m uf'. union_uf uf a b = Some (Inr (m, uf')) \<and> uf_inv uf')"
proof (cases "in_range (length (parents uf)) a")
  case False
  then show ?thesis by (simp add: union_uf_def find_uf_out)
next
  case a: True
  from find_uf_total [OF assms a] obtain r1 uf1 where
    f1: "find_uf uf a = Some (Inr (int r1, uf1))" and inv1: "uf_inv uf1"
    and rk1: "ranks uf1 = ranks uf" and len1: "length (parents uf1) = length (parents uf)"
    and r1: "r1 < length (parents uf)" and root1: "parents uf1 ! r1 = int r1"
    and le1: "ranks uf ! slot (length (parents uf)) a \<le> ranks uf ! r1"
    by blast
  show ?thesis
  proof (cases "in_range (length (parents uf)) b")
    case False
    with f1 len1 show ?thesis by (simp add: union_uf_def find_uf_out)
  next
    case b: True
    with len1 have b1: "in_range (length (parents uf1)) b" by simp
    from find_uf_total [OF inv1 b1] obtain r2 uf2 where
      f2: "find_uf uf1 b = Some (Inr (int r2, uf2))" and inv2: "uf_inv uf2"
      and rk2: "ranks uf2 = ranks uf1" and len2: "length (parents uf2) = length (parents uf1)"
      and r2: "r2 < length (parents uf1)"
      and le2: "ranks uf1 ! slot (length (parents uf1)) b \<le> ranks uf1 ! r2"
      and keep: "\<forall>k < length (parents uf1). parents uf1 ! k = int k \<longrightarrow> parents uf2 ! k = int k"
      by blast
    show ?thesis
    proof (cases "r1 = r2")
      case True
      with f1 f2 inv2 show ?thesis by (auto simp: union_uf_def)
    next
      case False
      have root: "parents uf2 ! r1 = int r1" using keep r1 root1 len1 by simp
      from union_attach_inv [OF inv2, of a b r1 r2] a b r1 r2 root le1 le2 rk1 rk2 len1 len2
      obtain uf3 where "union_attach uf2 a b (int r1) (int r2) = Inr uf3" "uf_inv uf3"
        by auto
      with f1 f2 False show ?thesis by (auto simp: union_uf_def)
    qed
  qed
qed

lemma uf_inv_init: "uf_inv (UnionFind_init n)"
  by (auto simp: uf_inv_def UnionFind_init_def)

lemma kruskal_loop_exhausts:
  "uf_inv uf \<Longrightarrow> int (length acc) + int (length se - idx) < get_vertices_nb g - 1 \<Longrightarrow>
   kruskal_loop g se acc idx tw uf = Some (Inl IndexError)"
proof (induction g se acc idx tw uf rule: kruskal_loop.induct)
  case (1 g se acc idx tw uf)
  from "1.prems"(2) have c1: "int (length acc) < get_vertices_nb g - 1" by linarith
  show ?case
  proof (cases "idx < length se")
    case False
    with c1 show ?thesis by (subst kruskal_loop.simps) simp
  next
    case c2: True
    define edge where "edge = se ! idx"
    from find_uf_cases [OF "1.prems"(1), of "from_v edge"] show ?thesis
    proof
      assume "find_uf uf (from_v edge) = Some (Inl IndexError)"
      with c1 c2 show ?thesis by (subst kruskal_loop.simps) (simp add: edge_def)
    next
      assume "\<exists>r uf'. find_uf uf (from_v edge) = Some (Inr (r, uf')) \<and> uf_inv uf'"
      then obtain pf uf1 where f1: "find_uf uf (from_v edge) = Some (Inr (pf, uf1))"
        and inv1: "uf_inv uf1" by blast
      from find_uf_cases [OF inv1, of "to edge"] show ?thesis
      proof
        assume "find_uf uf1 (to edge) = Some (Inl IndexError)"
        with c1 c2 f1 show ?thesis by (subst kruskal_loop.simps) (simp add: edge_def [symmetric])
      next
        assume "\<exists>r uf'. find_uf uf1 (to edge) = Some (Inr (r, uf')) \<and> uf_inv uf'"
        then obtain pt uf2 where f2: "find_uf uf1 (to edge) = Some (Inr (pt, uf2))"
          and inv2: "uf_inv uf2" by blast
        show ?thesis
        proof (cases "pf = pt")
          case True
          have "kruskal_loop g se acc (Suc idx) tw uf2 = Some (Inl IndexError)"
            using "1.IH"(2) [OF c1 c2 edge_def f1 refl refl f2 refl refl _ inv2] True "1.prems"(2) c2
            by simp
          with c1 c2 f1 f2 True show ?thesis
            by (subst kruskal_loop.simps) (simp add: edge_def [symmetric])
        next
          case False
          from union_uf_cases [OF inv2, of "from_v edge" "to edge"] show ?thesis
          proof
            assume "union_uf uf2 (from_v edge) (to edge) = Some (Inl IndexError)"
            with c1 c2 f1 f2 False show ?thesis
              by (subst kruskal_loop.simps) (simp add: edge_def [symmetric])
          next
            assume "\<exists>m uf'. union_uf uf2 (from_v edge) (to edge) = Some (Inr (m, uf')) \<and> uf_inv uf'"
            then obtain m uf3 where u: "union_uf uf2 (from_v edge) (to edge) = Some (Inr (m, uf3))"
              and inv3: "uf_inv uf3" by blast
            have "kruskal_loop g se (acc @ [edge]) (Suc idx) (tw + weight edge) uf3
                  = Some (Inl IndexError)"
              using "1.IH"(1) [OF c1 c2 edge_def f1 refl refl f2 refl refl False u refl refl inv3]
                    "1.prems"(2) c2
              by simp
            with c1 c2 f1 f2 False u show ?thesis
              by (subst kruskal_loop.simps) (simp add: edge_def [symmetric])
          qed
        qed
      qed
    qed
  qed
qed

section \<open>The fixture graph\<close>

text \<open>
  C1 (as amended). For the fixture graph of \<open>create_graph\<close> (6 vertices, 15 edges),
  \<open>kruskal\<close> returns the five edges \<open>(1,2,2)\<close>, \<open>(2,5,2)\<close>, \<open>(2,3,3)\<close>, \<open>(3,4,3)\<close>,
  \<open>(0,1,4)\<close> in this order, with total weight 14; among edges of equal weight the
  first in insertion order is taken.
\<close>

theorem kruskal_create_graph:
  "kruskal create_graph =
     Some (Inr (MinimumSpanningTree
       [Edge 1 2 2, Edge 2 5 2, Edge 2 3 3, Edge 3 4 3, Edge 0 1 4] 14))"
  by code_simp

text \<open>
  C1 as stated fails: the result is not the four edges \<open>(1,2,2)\<close>, \<open>(2,5,2)\<close>,
  \<open>(2,3,3)\<close>, \<open>(0,1,4)\<close> with total weight 8.
\<close>

theorem kruskal_create_graph_counterexample:
  "kruskal create_graph \<noteq>
     Some (Inr (MinimumSpanningTree [Edge 1 2 2, Edge 2 5 2, Edge 2 3 3, Edge 0 1 4] 8))"
  by code_simp

section \<open>Where \<open>union\<close> attaches a vertex instead of its root\<close>

text \<open>
  C3 at a failing input. In the DSU reached from four singletons by \<open>union(0,1)\<close> and
  \<open>union(2,3)\<close>, the call \<open>union(1,3)\<close> finds the roots 0 and 2 with equal ranks. It
  returns \<open>True\<close> and raises the rank of root 0 by one, but the parent it sets is that of
  vertex 3, not that of the root 2 of vertex 3: \<open>parents[2]\<close> is still 2.
\<close>

theorem union_attaches_vertex_not_root:
  "union_uf \<lparr>parents = [0, 0, 2, 2], ranks = [2, 1, 2, 1]\<rparr> 1 3 =
     Some (Inr (True, \<lparr>parents = [0, 0, 2, 0], ranks = [3, 1, 2, 1]\<rparr>))"
  by code_simp

text \<open>
  C4 at a failing input. From four singletons, \<open>union(0,1)\<close>, \<open>union(2,3)\<close> and
  \<open>union(1,3)\<close> all return \<open>True\<close>; afterwards \<open>find(2)\<close> is 2 and \<open>find(3)\<close> is 0,
  although \<open>union(2,3)\<close> had returned \<open>True\<close>.
\<close>

theorem union_not_permanent:
  "union_uf (UnionFind_init 4) 0 1 =
     Some (Inr (True, \<lparr>parents = [0, 0, 2, 3], ranks = [2, 1, 1, 1]\<rparr>))
   \<and> union_uf \<lparr>parents = [0, 0, 2, 3], ranks = [2, 1, 1, 1]\<rparr> 2 3 =
     Some (Inr (True, \<lparr>parents = [0, 0, 2, 2], ranks = [2, 1, 2, 1]\<rparr>))
   \<and> union_uf \<lparr>parents = [0, 0, 2, 2], ranks = [2, 1, 2, 1]\<rparr> 1 3 =
     Some (Inr (True, \<lparr>parents = [0, 0, 2, 0], ranks = [3, 1, 2, 1]\<rparr>))
   \<and> find_uf \<lparr>parents = [0, 0, 2, 0], ranks = [3, 1, 2, 1]\<rparr> 2 =
     Some (Inr (2, \<lparr>parents = [0, 0, 2, 0], ranks = [3, 1, 2, 1]\<rparr>))
   \<and> find_uf \<lparr>parents = [0, 0, 2, 0], ranks = [3, 1, 2, 1]\<rparr> 3 =
     Some (Inr (0, \<lparr>parents = [0, 0, 2, 0], ranks = [3, 1, 2, 1]\<rparr>))"
  by code_simp

text \<open>
  C5 at a failing input. Four singletons have four roots; after \<open>union(0,1)\<close> and
  \<open>union(2,3)\<close> two roots remain; the third union, \<open>union(1,3)\<close>, returns \<open>True\<close> and
  leaves two roots, where the claim counts \<open>4 - 3 = 1\<close>.
\<close>

theorem union_keeps_root_count:
  "count_roots (UnionFind_init 4) = 4
   \<and> count_roots \<lparr>parents = [0, 0, 2, 2], ranks = [2, 1, 2, 1]\<rparr> = 2
   \<and> union_uf \<lparr>parents = [0, 0, 2, 2], ranks = [2, 1, 2, 1]\<rparr> 1 3 =
     Some (Inr (True, \<lparr>parents = [0, 0, 2, 0], ranks = [3, 1, 2, 1]\<rparr>))
   \<and> count_roots \<lparr>parents = [0, 0, 2, 0], ranks = [3, 1, 2, 1]\<rparr> = 2"
  by code_simp

text \<open>
  C2 at a failing input. On \<open>bug_graph\<close>, which is connected, \<open>kruskal\<close> returns four
  edges of total weight 5 none of which touches vertex 4: the result is not a spanning
  tree, and every spanning tree contains the only edge at vertex 4, of weight 3, and
  three more edges of weight at least 1, so weighs at least 6.
\<close>

theorem kruskal_bug_graph_not_spanning:
  "kruskal bug_graph =
     Some (Inr (MinimumSpanningTree [Edge 0 1 1, Edge 2 3 1, Edge 1 3 1, Edge 0 2 2] 5))
   \<and> 4 \<in> vertices bug_graph
   \<and> 4 \<notin> set (map from_v [Edge 0 1 1, Edge 2 3 1, Edge 1 3 1, Edge 0 2 2])
   \<and> 4 \<notin> set (map to [Edge 0 1 1, Edge 2 3 1, Edge 1 3 1, Edge 0 2 2])"
  by code_simp

text \<open>
  C6 at a failing input. The four edges that \<open>kruskal\<close> returns on \<open>bug_graph\<close> form
  the cycle 0 - 1 - 3 - 2 - 0.
\<close>

theorem kruskal_bug_graph_cycle:
  "kruskal bug_graph =
     Some (Inr (MinimumSpanningTree [Edge 0 1 1, Edge 2 3 1, Edge 1 3 1, Edge 0 2 2] 5))
   \<and> walk_end 0 [Edge 0 1 1, Edge 1 3 1, Edge 2 3 1, Edge 0 2 2] = Some 0
   \<and> distinct [Edge 0 1 1, Edge 1 3 1, Edge 2 3 1, Edge 0 2 2]
   \<and> set [Edge 0 1 1, Edge 1 3 1, Edge 2 3 1, Edge 0 2 2]
       \<subseteq> set [Edge 0 1 1, Edge 2 3 1, Edge 1 3 1, Edge 0 2 2]"
  by code_simp

section \<open>The empty graph\<close>

text \<open>
  C9. For every input graph with zero vertices, \<open>kruskal\<close> returns a
  \<open>MinimumSpanningTree\<close> with an empty edge list and total weight 0: the loop condition
  \<open>0 < 0 - 1\<close> is false at once.
\<close>

theorem kruskal_empty_graph:
  "get_vertices_nb graph = 0 \<Longrightarrow> kruskal graph = Some (Inr (MinimumSpanningTree [] 0))"
  by (simp add: kruskal_def kruskal_loop.simps [of graph _ "[]"])

theorem kruskal_empty_graph_witness:
  "get_vertices_nb Graph_init = 0 \<and> kruskal Graph_init = Some (Inr (MinimumSpanningTree [] 0))"
  using kruskal_empty_graph [of Graph_init] by (simp add: get_vertices_nb_def Graph_init_def)

section \<open>Self-loops\<close>

text \<open>
  C10. Whenever \<open>kruskal\<close> returns, no edge of the returned list is a self-loop, and the
  total weight is the sum of the weights of the returned edges, so a self-loop
  contributes nothing to it: the two \<open>find\<close> calls on equal endpoints return the same
  root, and the edge is skipped.
\<close>

theorem kruskal_no_self_loop:
  "kruskal graph = Some (Inr (MinimumSpanningTree es w)) \<Longrightarrow>
     (\<forall>e\<in>set es. from_v e \<noteq> to e) \<and> w = sum_list (map weight es)"
  using kruskal_loop_no_self_loop [of graph "sort_key weight (edges graph)" "[]" 0 0
          "UnionFind_init (int (card (vertices graph)))" es w]
  by (auto simp: kruskal_def Let_def split: option.splits sum.splits prod.splits)


theorem kruskal_no_self_loop_witness:
  "kruskal self_loop_graph = Some (Inr (MinimumSpanningTree [Edge 0 1 2] 2))
   \<and> Edge 0 0 1 \<in> set (edges self_loop_graph)
   \<and> from_v (Edge 0 1 2) \<noteq> to (Edge 0 1 2)
   \<and> (2::int) = sum_list (map weight [Edge 0 1 2])"
proof -
  have k: "kruskal self_loop_graph = Some (Inr (MinimumSpanningTree [Edge 0 1 2] 2))"
    by code_simp
  have e: "Edge 0 0 1 \<in> set (edges self_loop_graph)"
    by code_simp
  from kruskal_no_self_loop [OF k] k e show ?thesis by simp
qed

section \<open>Indices out of range\<close>

text \<open>
  C8 (as amended). In a DSU over \<open>n\<close> elements, for every index \<open>v\<close> with \<open>v \<ge> n\<close> or
  \<open>v < -n\<close>, \<open>find(v)\<close> and \<open>union(v, b)\<close> raise \<open>IndexError\<close>, and \<open>union(a, v)\<close> never
  returns a normal result; in a DSU that satisfies the rank invariant (every DSU
  reached from a fresh one) \<open>union(a, v)\<close> raises \<open>IndexError\<close> too.
\<close>

theorem out_of_range_index_raises:
  assumes "int (length (parents uf)) \<le> v \<or> v < - int (length (parents uf))"
  shows "find_uf uf v = Some (Inl IndexError)
         \<and> union_uf uf v b = Some (Inl IndexError)
         \<and> (\<forall>res. union_uf uf a v \<noteq> Some (Inr res))
         \<and> (uf_inv uf \<longrightarrow> union_uf uf a v = Some (Inl IndexError))"
proof -
  from assms have out: "\<not> in_range (length (parents uf)) v"
    by (auto simp: in_range_def)
  then have f: "find_uf uf v = Some (Inl IndexError)" by (rule find_uf_out)
  then have u1: "union_uf uf v b = Some (Inl IndexError)" by (simp add: union_uf_def)
  have u2: "union_uf uf a v \<noteq> Some (Inr res)" for res
  proof (cases "find_uf uf a")
    case None
    then show ?thesis by (simp add: union_uf_def)
  next
    case (Some x)
    show ?thesis
    proof (cases x)
      case (Inl e)
      with Some show ?thesis by (simp add: union_uf_def)
    next
      case (Inr y)
      obtain r uf1 where y: "y = (r, uf1)" by (cases y)
      with Some Inr have fa: "find_uf uf a = Some (Inr (r, uf1))" by simp
      from find_uf_length [OF fa] out have "find_uf uf1 v = Some (Inl IndexError)"
        by (simp add: find_uf_out)
      with fa show ?thesis by (simp add: union_uf_def)
    qed
  qed
  have u3: "union_uf uf a v = Some (Inl IndexError)" if "uf_inv uf"
    using union_uf_cases [OF that, of a v] u2 by auto
  from f u1 u2 u3 show ?thesis by blast
qed

theorem out_of_range_index_raises_witness:
  "find_uf (UnionFind_init 2) 2 = Some (Inl IndexError)
   \<and> union_uf (UnionFind_init 2) 2 0 = Some (Inl IndexError)
   \<and> union_uf (UnionFind_init 2) 0 2 = Some (Inl IndexError)
   \<and> find_uf (UnionFind_init 2) (- 3) = Some (Inl IndexError)"
proof -
  have l: "length (parents (UnionFind_init 2)) = 2" by code_simp
  have u: "union_uf (UnionFind_init 2) 0 2 = Some (Inl IndexError)" by code_simp
  from out_of_range_index_raises [of "UnionFind_init 2" 2 0 0]
       out_of_range_index_raises [of "UnionFind_init 2" "- 3" 0 0] l u
  show ?thesis by simp
qed

text \<open>
  C8 as stated fails for the indices \<open>-n \<le> v < 0\<close>, which Python accepts: on a DSU of
  one element, \<open>find(-1)\<close> returns 0.
\<close>

theorem find_negative_index_counterexample:
  "find_uf (UnionFind_init 1) (- 1) = Some (Inr (0, \<lparr>parents = [0], ranks = [1]\<rparr>))"
  by code_simp

section \<open>Graphs with too few edges\<close>

text \<open>
  C7 (as amended). For every input graph with fewer than \<open>n - 1\<close> edges, \<open>n\<close> the number
  of its vertices (such a graph has more than one connected component), \<open>kruskal\<close>
  returns no result: it raises Python's unchecked \<open>IndexError\<close>, at the latest when
  \<open>sorted_edges[edges_idx]\<close> runs past the end of the list.
\<close>

theorem kruskal_too_few_edges:
  "int (length (edges graph)) < get_vertices_nb graph - 1 \<Longrightarrow>
     kruskal graph = Some (Inl IndexError)"
  using kruskal_loop_exhausts [of "UnionFind_init (int (card (vertices graph)))" "[]"
          "sort_key weight (edges graph)" 0 graph 0]
  by (simp add: kruskal_def uf_inv_init)

theorem kruskal_too_few_edges_witness:
  "int (length (edges two_pairs_graph)) < get_vertices_nb two_pairs_graph - 1
   \<and> kruskal two_pairs_graph = Some (Inl IndexError)"
proof -
  have h: "int (length (edges two_pairs_graph)) < get_vertices_nb two_pairs_graph - 1"
    by code_simp
  from kruskal_too_few_edges [OF h] h show ?thesis by simp
qed

text \<open>
  C7 as stated fails: on the graph of the two separate edges \<open>(0,1)\<close> and \<open>(2,3)\<close>, and
  on the graph with vertices 0 and 1 and no edge, \<open>kruskal\<close> fails with the unchecked
  \<open>IndexError\<close> of a list subscript; the program has no other error.
\<close>

theorem kruskal_disconnected_counterexample:
  "kruskal two_pairs_graph = Some (Inl IndexError)
   \<and> kruskal \<lparr>vertices = {0, 1}, edges = []\<rparr> = Some (Inl IndexError)"
  by code_simp

end
